theory Spec2Isabelle
  imports Complex_Main "HOL-Library.Word"
begin

section \<open>Data model\<close>

text \<open>
  A JavaScript string is a sequence of UTF-16 code units; \<open>text.split('')\<close> yields one
  one-unit string per code unit, and \<open>line + chars[n]\<close> appends that unit.
  JavaScript numbers are modelled as reals.
\<close>

type_synonym code_unit = "16 word"
type_synonym jsstring = "code_unit list"

text \<open>
  \<open>ctx.measureText(s).width\<close> at the font currently set on the context: a function from
  strings to widths that the host supplies.
\<close>

type_synonym measure_text = "jsstring \<Rightarrow> real"

section \<open>Text wrapping (\<open>drawWrappedText\<close>)\<close>

text \<open>
  The \<open>for\<close> loop of \<open>drawWrappedText\<close>: \<open>cs\<close> are the entries \<open>chars[n..]\<close> still to be
  read, \<open>n\<close> the loop index, \<open>line\<close> and \<open>lines\<close> the two loop variables.
\<close>

fun wrap_loop ::
  "measure_text \<Rightarrow> real \<Rightarrow> jsstring \<Rightarrow> nat \<Rightarrow> jsstring \<Rightarrow> jsstring list
    \<Rightarrow> jsstring \<times> jsstring list" where
  "wrap_loop mt maxWidth [] n line lines = (line, lines)"
| "wrap_loop mt maxWidth (c # cs) n line lines =
     (let testLine = line @ [c] in
      if mt testLine > maxWidth \<and> n > 0
      then wrap_loop mt maxWidth cs (Suc n) [c] (lines @ [line])
      else wrap_loop mt maxWidth cs (Suc n) testLine lines)"

text \<open>The loop from \<open>n = 0\<close>, \<open>line = ''\<close>, \<open>lines = []\<close>, then the final \<open>lines.push(line)\<close>.\<close>

definition wrapped_lines :: "measure_text \<Rightarrow> real \<Rightarrow> jsstring \<Rightarrow> jsstring list" where
  "wrapped_lines mt maxWidth text =
     (case wrap_loop mt maxWidth text 0 [] [] of (line, lines) \<Rightarrow> lines @ [line])"

text \<open>
  The inline measuring loop of the export path: the same scan, keeping a count instead of
  the lines. It starts from \<open>lineCount = 1\<close>.
\<close>

fun count_loop ::
  "measure_text \<Rightarrow> real \<Rightarrow> jsstring \<Rightarrow> nat \<Rightarrow> jsstring \<Rightarrow> nat \<Rightarrow> jsstring \<times> nat" where
  "count_loop mt maxWidth [] n line lineCount = (line, lineCount)"
| "count_loop mt maxWidth (c # cs) n line lineCount =
     (let testLine = line @ [c] in
      if mt testLine > maxWidth \<and> n > 0
      then count_loop mt maxWidth cs (Suc n) [c] (Suc lineCount)
      else count_loop mt maxWidth cs (Suc n) testLine lineCount)"

definition count_lines :: "measure_text \<Rightarrow> real \<Rightarrow> jsstring \<Rightarrow> nat" where
  "count_lines mt maxWidth text = snd (count_loop mt maxWidth text 0 [] 1)"

text \<open>A line fits when it is within the budget or is one single code unit.\<close>

definition line_ok :: "measure_text \<Rightarrow> real \<Rightarrow> jsstring \<Rightarrow> bool" where
  "line_ok mt maxWidth l = (mt l \<le> maxWidth \<or> (length l = 1 \<and> mt l > maxWidth))"

text \<open>
  A character outside the Basic Multilingual Plane is two code units in a JavaScript
  string: a high surrogate followed by a low surrogate. A list of lines splits a character
  when a line ends with the high surrogate and the next line starts with the low one.
\<close>

definition is_high_surrogate :: "code_unit \<Rightarrow> bool" where
  "is_high_surrogate c = (0xD800 \<le> c \<and> c \<le> 0xDBFF)"

definition is_low_surrogate :: "code_unit \<Rightarrow> bool" where
  "is_low_surrogate c = (0xDC00 \<le> c \<and> c \<le> 0xDFFF)"

fun splits_character :: "jsstring list \<Rightarrow> bool" where
  "splits_character (l1 # l2 # ls) =
     ((l1 \<noteq> [] \<and> l2 \<noteq> [] \<and> is_high_surrogate (last l1) \<and> is_low_surrogate (hd l2))
      \<or> splits_character (l2 # ls))"
| "splits_character ls = False"

section \<open>Frame compositing\<close>

datatype AspectRatio = SQUARE | PORTRAIT | LANDSCAPE | CINEMATIC | CLASSIC

text \<open>Step A of \<open>handleExportVideo\<close>: the canvas size of each aspect ratio, (width, height).\<close>

fun canvas_size :: "AspectRatio \<Rightarrow> real \<times> real" where
  "canvas_size PORTRAIT = (1080, 1920)"
| "canvas_size SQUARE = (1080, 1080)"
| "canvas_size CINEMATIC = (1920, 816)"
| "canvas_size CLASSIC = (1440, 1080)"
| "canvas_size LANDSCAPE = (1920, 1080)"

text \<open>The fields of \<open>Shot\<close> that the editor's export path reads.\<close>

record shot =
  shot_id :: jsstring
  dialogue :: "jsstring option"
  imageUrl :: "jsstring option"

text \<open>
  An \<open>Image\<close> element after its load or error event. A failed load leaves
  \<open>naturalWidth = 0\<close>.
\<close>

record html_image =
  naturalWidth :: nat
  img_width :: nat
  img_height :: nat

text \<open>An optional string is truthy when it is present and not empty.\<close>

fun truthy :: "jsstring option \<Rightarrow> bool" where
  "truthy None = False"
| "truthy (Some s) = (s \<noteq> [])"

definition js :: "string \<Rightarrow> jsstring" where
  "js s = map (\<lambda>c. of_nat (of_char c)) s"

datatype paint = Color string | LinearGradient real real real real "(real \<times> string) list"

text \<open>The calls made on the 2D context, with the fill style in force where one applies.\<close>

datatype draw_cmd =
    FillRect paint real real real real
  | DrawImage html_image real real real real
  | StrokeText jsstring real real
  | FillText jsstring real real

text \<open>
  The "object cover" computation of step 2: the arguments
  \<open>(offsetX, offsetY, drawW, drawH)\<close> passed to \<open>drawImage\<close>.
\<close>

record placement =
  offsetX :: real
  offsetY :: real
  drawW :: real
  drawH :: real

definition cover_fit :: "html_image \<Rightarrow> real \<Rightarrow> real \<Rightarrow> placement" where
  "cover_fit img width height =
     (let imgRatio = real (img_width img) / real (img_height img);
          canvasRatio = width / height
      in if imgRatio > canvasRatio
         then \<lparr>offsetX = (width - height * imgRatio) / 2, offsetY = 0,
               drawW = height * imgRatio, drawH = height\<rparr>
         else \<lparr>offsetX = 0, offsetY = (height - width / imgRatio) / 2,
               drawW = width, drawH = width / imgRatio\<rparr>)"

text \<open>Steps 1 and 2: black background, then the image or the placeholder.\<close>

definition draw_background :: "real \<Rightarrow> real \<Rightarrow> html_image \<Rightarrow> draw_cmd list" where
  "draw_background width height img =
     FillRect (Color ''black'') 0 0 width height #
     (if naturalWidth img > 0
      then (let p = cover_fit img width height
            in [DrawImage img (offsetX p) (offsetY p) (drawW p) (drawH p)])
      else [FillRect (Color ''#333'') 0 0 width height,
            FillText (js ''Missing Image'') (width / 2) (height / 2)])"

text \<open>
  The \<open>lines.forEach\<close> of \<open>drawWrappedText\<close>: line \<open>idx\<close> is stroked, then filled, at
  \<open>y + idx * lineHeight\<close>.
\<close>

definition draw_lines :: "jsstring list \<Rightarrow> real \<Rightarrow> real \<Rightarrow> real \<Rightarrow> draw_cmd list" where
  "draw_lines lines x y lineHeight =
     concat (map (\<lambda>idx. [StrokeText (lines ! idx) x (y + real idx * lineHeight),
                          FillText (lines ! idx) x (y + real idx * lineHeight)])
                 [0 ..< length lines])"

definition drawWrappedText ::
  "measure_text \<Rightarrow> jsstring \<Rightarrow> real \<Rightarrow> real \<Rightarrow> real \<Rightarrow> real \<Rightarrow> draw_cmd list" where
  "drawWrappedText mt text x y maxWidth lineHeight =
     draw_lines (wrapped_lines mt maxWidth text) x y lineHeight"

text \<open>
  Step 3, for a truthy dialogue. The measurement depends on the font size set on the
  context, so the host's \<open>measureText\<close> takes it as its first argument. \<open>tempCtx\<close> is the
  same context object as \<open>ctx\<close>, so both loops measure with the same function.
\<close>

definition font_size :: "real \<Rightarrow> int" where
  "font_size height = \<lfloor>height * 0.04\<rfloor>"

definition subtitle_start_y :: "(int \<Rightarrow> measure_text) \<Rightarrow> real \<Rightarrow> real \<Rightarrow> jsstring \<Rightarrow> real" where
  "subtitle_start_y mt width height d =
     (let fontSize = font_size height;
          maxWidth = width * 0.85;
          lineHeight = real_of_int fontSize * 1.35;
          lineCount = count_lines (mt fontSize) maxWidth d;
          totalTextH = real lineCount * lineHeight
      in height - (height * 0.08) - totalTextH)"

definition gradient_strap :: "real \<Rightarrow> real \<Rightarrow> draw_cmd" where
  "gradient_strap width height =
     (let strapHeight = height * 0.25;
          grad = LinearGradient 0 (height - strapHeight) 0 height
                   [(0, ''rgba(0,0,0,0)''), (0.3, ''rgba(0,0,0,0.6)''), (1, ''rgba(0,0,0,0.9)'')]
      in FillRect grad 0 (height - strapHeight) width strapHeight)"

definition draw_subtitles :: "(int \<Rightarrow> measure_text) \<Rightarrow> real \<Rightarrow> real \<Rightarrow> jsstring \<Rightarrow> draw_cmd list" where
  "draw_subtitles mt width height d =
     (let fontSize = font_size height;
          textX = width / 2;
          maxWidth = width * 0.85;
          lineHeight = real_of_int fontSize * 1.35;
          startY = subtitle_start_y mt width height d
      in gradient_strap width height #
         drawWrappedText (mt fontSize) d textX startY maxWidth lineHeight)"

text \<open>A measurement used in examples: a code unit is half the font size wide.\<close>

definition half_em :: "int \<Rightarrow> measure_text" where
  "half_em fontSize s = real_of_int fontSize / 2 * real (length s)"

definition compose_frame ::
  "(int \<Rightarrow> measure_text) \<Rightarrow> real \<Rightarrow> real \<Rightarrow> shot \<Rightarrow> html_image \<Rightarrow> draw_cmd list" where
  "compose_frame mt width height sh img =
     draw_background width height img @
     (case dialogue sh of
        Some d \<Rightarrow> if d \<noteq> [] then draw_subtitles mt width height d else []
      | None \<Rightarrow> [])"

section \<open>Playback clock\<close>

text \<open>
  The React state of \<open>VideoEditor\<close> and its two refs. \<open>ticker\<close> is the interval created
  by the playback effect: \<open>Some idx\<close> while an interval is live, \<open>idx\<close> being the
  \<open>currentIndex\<close> its callback closed over, and \<open>None\<close> once it is cleared.
\<close>

record editor =
  currentIndex :: int
  isPlaying :: bool
  progress :: real
  isExporting :: bool
  exportProgress :: int
  startTimeRef :: real
  ticker :: "int option"

definition DURATION_PER_SHOT :: real where
  "DURATION_PER_SHOT = 4000"

text \<open>The interval callback; \<open>len\<close> is \<open>storyboard.length\<close>, \<open>now\<close> is \<open>Date.now()\<close>.\<close>

definition tick :: "nat \<Rightarrow> real \<Rightarrow> 'a editor_scheme \<Rightarrow> 'a editor_scheme" where
  "tick len now s =
     (case ticker s of
        None \<Rightarrow> s
      | Some idx \<Rightarrow>
          (let elapsed = now - startTimeRef s;
               newProgress = (elapsed / DURATION_PER_SHOT) * 100
           in if newProgress \<ge> 100
              then (if idx < int len - 1
                    then s\<lparr>currentIndex := currentIndex s + 1, progress := 0, startTimeRef := now\<rparr>
                    else s\<lparr>isPlaying := False, progress := 100, ticker := None\<rparr>)
              else s\<lparr>progress := newProgress\<rparr>))"

text \<open>
  The body of the playback effect, after the cleanup of the previous run has cleared the
  old interval.
\<close>

definition playback_effect :: "real \<Rightarrow> 'a editor_scheme \<Rightarrow> 'a editor_scheme" where
  "playback_effect now s =
     (if isPlaying s \<and> \<not> isExporting s
      then s\<lparr>startTimeRef := now - (progress s / 100) * DURATION_PER_SHOT,
             ticker := Some (currentIndex s)\<rparr>
      else s\<lparr>ticker := None\<rparr>)"

text \<open>
  After a handler has run, React renders and, before the next event is handled, re-runs
  the effect when one of its dependencies
  \<open>[isPlaying, currentIndex, storyboard.length, isExporting]\<close> has changed.
  The storyboard length is fixed while the editor is mounted.
\<close>

definition render_after :: "'a editor_scheme \<Rightarrow> real \<Rightarrow> 'a editor_scheme \<Rightarrow> 'a editor_scheme" where
  "render_after old now s =
     (if isPlaying s \<noteq> isPlaying old \<or> currentIndex s \<noteq> currentIndex old
         \<or> isExporting s \<noteq> isExporting old
      then playback_effect now s else s)"

definition handleJump :: "int \<Rightarrow> real \<Rightarrow> 'a editor_scheme \<Rightarrow> 'a editor_scheme" where
  "handleJump index now s =
     (if isExporting s then s
      else s\<lparr>currentIndex := index, progress := 0, startTimeRef := now\<rparr>)"

definition togglePlay :: "nat \<Rightarrow> real \<Rightarrow> 'a editor_scheme \<Rightarrow> 'a editor_scheme" where
  "togglePlay len now s =
     (if isExporting s then s
      else (let s1 = (if \<not> isPlaying s \<and> progress s \<ge> 100 \<and> currentIndex s = int len - 1
                      then s\<lparr>currentIndex := 0, progress := 0, startTimeRef := now\<rparr>
                      else s)
            in s1\<lparr>isPlaying := \<not> isPlaying s\<rparr>))"

definition handleNext :: "nat \<Rightarrow> real \<Rightarrow> 'a editor_scheme \<Rightarrow> 'a editor_scheme" where
  "handleNext len now s =
     (if currentIndex s < int len - 1 then handleJump (currentIndex s + 1) now s else s)"

definition handlePrev :: "real \<Rightarrow> 'a editor_scheme \<Rightarrow> 'a editor_scheme" where
  "handlePrev now s =
     (if currentIndex s > 0 then handleJump (currentIndex s - 1) now s else s)"

text \<open>The state changes that an export run makes to the editor.\<close>

definition begin_export :: "'a editor_scheme \<Rightarrow> 'a editor_scheme" where
  "begin_export s = s\<lparr>isExporting := True, exportProgress := 0, isPlaying := False\<rparr>"

definition on_export_stopped :: "'a editor_scheme \<Rightarrow> 'a editor_scheme" where
  "on_export_stopped s = s\<lparr>isExporting := False, exportProgress := 0\<rparr>"

definition on_export_failed :: "'a editor_scheme \<Rightarrow> 'a editor_scheme" where
  "on_export_failed s = s\<lparr>isExporting := False\<rparr>"

text \<open>
  What can happen to a mounted editor: an interval tick, a click on thumbnail \<open>idx\<close>, on
  play/pause, next or previous, and the state changes of an export run.
\<close>

datatype ui_event =
    Tick | ClickThumb nat | ClickPlay | ClickNext | ClickPrev
  | ExportClicked | ExportProgressed int | ExportStopped | ExportFailed

fun dispatch :: "nat \<Rightarrow> ui_event \<Rightarrow> real \<Rightarrow> 'a editor_scheme \<Rightarrow> 'a editor_scheme" where
  "dispatch len Tick now s = tick len now s"
| "dispatch len (ClickThumb idx) now s = handleJump (int idx) now s"
| "dispatch len ClickPlay now s = togglePlay len now s"
| "dispatch len ClickNext now s = handleNext len now s"
| "dispatch len ClickPrev now s = handlePrev now s"
| "dispatch len ExportClicked now s = (if isExporting s then s else begin_export s)"
| "dispatch len (ExportProgressed p) now s = s\<lparr>exportProgress := p\<rparr>"
| "dispatch len ExportStopped now s = on_export_stopped s"
| "dispatch len ExportFailed now s = on_export_failed s"

text \<open>One event: the handler at time \<open>now\<close>, then the render and the effect at \<open>now'\<close>.\<close>

definition step :: "nat \<Rightarrow> ui_event \<Rightarrow> real \<Rightarrow> real \<Rightarrow> 'a editor_scheme \<Rightarrow> 'a editor_scheme" where
  "step len ev now now' s = render_after s now' (dispatch len ev now s)"

text \<open>The initial \<open>useState\<close> values, with the effect of the first render run at \<open>now\<close>.\<close>

definition mount :: "real \<Rightarrow> editor" where
  "mount now =
     playback_effect now
       \<lparr>currentIndex = 0, isPlaying = True, progress = 0, isExporting = False,
        exportProgress = 0, startTimeRef = 0, ticker = None\<rparr>"

text \<open>
  The states a mounted editor over \<open>len\<close> shots can reach. The thumbnail rail has one
  thumbnail per shot, so a click on it carries an index below \<open>len\<close>.
\<close>

inductive reachable :: "nat \<Rightarrow> editor \<Rightarrow> bool" for len :: nat where
  reach_mount: "reachable len (mount now)"
| reach_step: "reachable len s \<Longrightarrow> (\<forall>idx. ev = ClickThumb idx \<longrightarrow> idx < len)
                \<Longrightarrow> reachable len (step len ev now now' s)"

section \<open>Export pipeline (\<open>handleExportVideo\<close>)\<close>

text \<open>
  The shot list is React state of the application: every change to it (\<open>setShots\<close>)
  builds a new array and re-renders the editor with it. Arrays are therefore kept in a
  store, addressed by position; \<open>shotsRef\<close> is the array of the latest render, which is
  the \<open>storyboard\<close> that a handler created by that render closes over.
\<close>

datatype shots_update = SetShots "shot list" | MapShots "shot \<Rightarrow> shot"

datatype export_error = NoCanvasContext | RecorderUnsupported | CanvasFault nat

datatype rec_state = NoRecorder | Inactive | Recording

datatype img_src = Url jsstring | Placeholder real real

type_synonym blob = "8 word list"

text \<open>What the run does to the recorder, the canvas, the clock and the page, in order.\<close>

datatype event =
    RecorderStart
  | Frame nat shot "draw_cmd list"
  | Hold real
  | RecorderStop
  | ConsoleError export_error
  | Alert
  | Download blob

text \<open>
  The host: the browser and whatever else runs between the suspension points of the run.
  \<open>canvas_fault i\<close> says that a canvas call raises while shot \<open>i\<close> is composited;
  the two schedules list the \<open>setShots\<close> calls that arrive while cycle \<open>i\<close> awaits its
  image and its hold; \<open>data_events\<close> are the blobs of the \<open>dataavailable\<close> events that
  precede the \<open>stop\<close> event. \<open>round_percent i len\<close> is the integer that
  \<open>Math.round((i / len) * 100)\<close> yields in the host's double arithmetic.
\<close>

record host =
  aspectRatio :: AspectRatio
  ctx_available :: bool
  recorder_supported :: bool
  measureText :: "int \<Rightarrow> measure_text"
  load_image :: "img_src \<Rightarrow> html_image"
  round_percent :: "nat \<Rightarrow> nat \<Rightarrow> int"
  canvas_fault :: "nat \<Rightarrow> bool"
  updates_during_load :: "nat \<Rightarrow> shots_update list"
  updates_during_hold :: "nat \<Rightarrow> shots_update list"
  data_events :: "blob list"

record world = editor +
  arrays :: "shot list list"
  shotsRef :: nat
  recorderState :: rec_state
  chunks :: "blob list"
  stopQueued :: bool
  trace :: "event list"

definition deref :: "world \<Rightarrow> nat \<Rightarrow> shot list" where
  "deref w a = (if a < length (arrays w) then arrays w ! a else [])"

definition apply_update :: "shots_update \<Rightarrow> world \<Rightarrow> world" where
  "apply_update u w =
     (let new = (case u of SetShots xs \<Rightarrow> xs | MapShots f \<Rightarrow> map f (deref w (shotsRef w)))
      in w\<lparr>arrays := arrays w @ [new], shotsRef := length (arrays w)\<rparr>)"

definition apply_updates :: "shots_update list \<Rightarrow> world \<Rightarrow> world" where
  "apply_updates us w = foldl (\<lambda>w u. apply_update u w) w us"

definition RECORD_DURATION :: real where
  "RECORD_DURATION = 3000"

text \<open>\<open>shot.imageUrl || `https://placehold.co/${width}x${height}/...`\<close>\<close>

definition image_src :: "real \<Rightarrow> real \<Rightarrow> shot \<Rightarrow> img_src" where
  "image_src width height sh =
     (if truthy (imageUrl sh) then Url (the (imageUrl sh)) else Placeholder width height)"

text \<open>What one cycle that does not raise adds to the trace.\<close>

definition cycle_events :: "host \<Rightarrow> real \<Rightarrow> real \<Rightarrow> nat \<Rightarrow> shot \<Rightarrow> event list" where
  "cycle_events h width height i sh =
     [Frame i sh (compose_frame (measureText h) width height sh
                    (load_image h (image_src width height sh))),
      Hold RECORD_DURATION]"

text \<open>
  The body of the \<open>for\<close> loop for index \<open>i\<close>; \<open>sb\<close> is the \<open>storyboard\<close> of the
  closure. The result carries the exception, if one was raised, and the state reached.
\<close>

definition cycle ::
  "host \<Rightarrow> nat \<Rightarrow> real \<Rightarrow> real \<Rightarrow> nat \<Rightarrow> world \<Rightarrow> export_error option \<times> world" where
  "cycle h sb width height i w =
     (let sh = deref w sb ! i;
          w1 = w\<lparr>exportProgress := round_percent h i (length (deref w sb))\<rparr>;
          w2 = apply_updates (updates_during_load h i) w1
      in if canvas_fault h i then (Some (CanvasFault i), w2)
         else (let w3 = w2\<lparr>trace := trace w2 @ cycle_events h width height i sh\<rparr>
               in (None, apply_updates (updates_during_hold h i) w3)))"

function export_loop ::
  "host \<Rightarrow> nat \<Rightarrow> real \<Rightarrow> real \<Rightarrow> nat \<Rightarrow> world \<Rightarrow> export_error option \<times> world" where
  "export_loop h sb width height i w =
     (if i < length (deref w sb)
      then (case cycle h sb width height i w of
              (Some e, w') \<Rightarrow> (Some e, w')
            | (None, w') \<Rightarrow> export_loop h sb width height (Suc i) w')
      else (None, w))"
  by pat_completeness auto
termination
proof (relation "measure (\<lambda>(h, sb, width, height, i, w). length (deref w sb) - i)")
  show "wf (measure (\<lambda>(h, sb, width, height, i, w). length (deref w sb) - i))"
    by simp
next
  fix h :: host and sb :: nat and width height :: real and i :: nat and w w' :: world
    and e :: "export_error option"
  assume lt: "i < length (deref w sb)"
    and r: "(e, w') = cycle h sb width height i w" and none: "e = None"
  have one: "deref (apply_update u v) a = deref v a" if "a < length (arrays v)" for u v a
    using that by (simp add: deref_def apply_update_def Let_def nth_append)
  have len: "length (arrays v) \<le> length (arrays (apply_update u v))" for u v
    by (simp add: apply_update_def Let_def)
  have many: "a < length (arrays v) \<Longrightarrow> deref (apply_updates us v) a = deref v a" for us v a
  proof (induction us arbitrary: v)
    case Nil
    then show ?case by (simp add: apply_updates_def)
  next
    case (Cons u us)
    from Cons.prems len [of v u] have "a < length (arrays (apply_update u v))" by simp
    from Cons.IH [OF this] one [OF Cons.prems] show ?case
      by (simp add: apply_updates_def)
  qed
  have lenm: "length (arrays v) \<le> length (arrays (apply_updates us v))" for us v
  proof (induction us arbitrary: v)
    case Nil
    then show ?case by (simp add: apply_updates_def)
  next
    case (Cons u us)
    from Cons.IH [of "apply_update u v"] len [of v u] show ?case
      by (simp add: apply_updates_def)
  qed
  from lt have alloc: "sb < length (arrays w)"
    by (auto simp: deref_def split: if_splits)
  let ?w1 = "w\<lparr>exportProgress := round_percent h i (length (deref w sb))\<rparr>"
  let ?w2 = "apply_updates (updates_during_load h i) ?w1"
  let ?w3 = "?w2\<lparr>trace := trace ?w2 @ cycle_events h width height i (deref w sb ! i)\<rparr>"
  from r none have w': "w' = apply_updates (updates_during_hold h i) ?w3"
    by (auto simp: cycle_def Let_def split: if_splits)
  from alloc have a1: "sb < length (arrays ?w1)" by simp
  have d1: "deref ?w1 sb = deref w sb" by (simp add: deref_def)
  have d2: "deref ?w2 sb = deref w sb"
    using many [OF a1, of "updates_during_load h i"] d1 by simp
  from lenm [of ?w1 "updates_during_load h i"] a1 have a3: "sb < length (arrays ?w3)" by simp
  have d3: "deref ?w3 sb = deref ?w2 sb" by (simp add: deref_def)
  have "deref w' sb = deref w sb"
    using many [OF a3, of "updates_during_hold h i"] d3 d2 unfolding w' by simp
  with lt show "((h, sb, width, height, Suc i, w'), (h, sb, width, height, i, w))
        \<in> measure (\<lambda>(h, sb, width, height, i, w). length (deref w sb) - i)"
    by simp
qed

declare export_loop.simps [simp del]

text \<open>The body of the \<open>try\<close> block, entered after the three state updates at the top.\<close>

definition export_try :: "host \<Rightarrow> world \<Rightarrow> export_error option \<times> world" where
  "export_try h w =
     (case canvas_size (aspectRatio h) of (width, height) \<Rightarrow>
        if \<not> ctx_available h then (Some NoCanvasContext, w)
        else if \<not> recorder_supported h then (Some RecorderUnsupported, w)
        else (let sb = shotsRef w;
                  w1 = w\<lparr>recorderState := Recording, chunks := [], stopQueued := False,
                         trace := trace w @ [RecorderStart]\<rparr>
              in case export_loop h sb width height 0 w1 of
                   (Some e, w2) \<Rightarrow> (Some e, w2)
                 | (None, w2) \<Rightarrow>
                     (None, w2\<lparr>recorderState := Inactive, stopQueued := True,
                               trace := trace w2 @ [RecorderStop]\<rparr>)))"

text \<open>The \<open>catch\<close> block: \<open>console.error\<close>, \<open>setIsExporting(false)\<close>, \<open>alert\<close>.\<close>

definition export_catch :: "export_error \<Rightarrow> world \<Rightarrow> world" where
  "export_catch e w = on_export_failed (w\<lparr>trace := trace w @ [ConsoleError e, Alert]\<rparr>)"

definition handleExportVideo :: "host \<Rightarrow> world \<Rightarrow> world" where
  "handleExportVideo h w =
     (if isExporting w then w
      else (case export_try h (begin_export w) of
              (None, w') \<Rightarrow> w'
            | (Some e, w') \<Rightarrow> export_catch e w'))"

text \<open>The two recorder callbacks, and their delivery once \<open>stop()\<close> has been called.\<close>

definition ondataavailable :: "blob \<Rightarrow> world \<Rightarrow> world" where
  "ondataavailable d w = (if length d > 0 then w\<lparr>chunks := chunks w @ [d]\<rparr> else w)"

definition onstop :: "world \<Rightarrow> world" where
  "onstop w = on_export_stopped (w\<lparr>trace := trace w @ [Download (concat (chunks w))]\<rparr>)"

definition deliver_recorder_events :: "host \<Rightarrow> world \<Rightarrow> world" where
  "deliver_recorder_events h w =
     (if stopQueued w
      then onstop (foldl (\<lambda>w d. ondataavailable d w) (w\<lparr>stopQueued := False\<rparr>) (data_events h))
      else w)"

definition export_run :: "host \<Rightarrow> world \<Rightarrow> world" where
  "export_run h w = deliver_recorder_events h (handleExportVideo h w)"

text \<open>Reading a trace: the shots composited, the holds, the events a run added.\<close>

fun frame_shot :: "event \<Rightarrow> shot option" where
  "frame_shot (Frame i sh cmds) = Some sh"
| "frame_shot _ = None"

fun frame_index :: "event \<Rightarrow> nat option" where
  "frame_index (Frame i sh cmds) = Some i"
| "frame_index _ = None"

fun is_hold :: "event \<Rightarrow> bool" where
  "is_hold (Hold d) = True"
| "is_hold _ = False"

definition new_events :: "world \<Rightarrow> world \<Rightarrow> event list" where
  "new_events w w' = drop (length (trace w)) (trace w')"

section \<open>Rendering the editor\<close>







text \<open>
  A host and a mounted editor used in examples. On the storyboards of the examples, of one
  or two shots, \<open>round_percent\<close> is the value the double computation gives (0 and 50).
\<close>

definition shot_a :: shot where
  "shot_a = \<lparr>shot_id = [0x61], dialogue = Some [0x48, 0x69], imageUrl = None\<rparr>"

definition shot_b :: shot where
  "shot_b = \<lparr>shot_id = [0x62], dialogue = None, imageUrl = Some [0x75]\<rparr>"

definition demo_host :: host where
  "demo_host =
     \<lparr>aspectRatio = LANDSCAPE, ctx_available = True, recorder_supported = True,
      measureText = half_em,
      load_image = (\<lambda>src. case src of
                      Url u \<Rightarrow> \<lparr>naturalWidth = 800, img_width = 800, img_height = 1200\<rparr>
                    | Placeholder w h \<Rightarrow> \<lparr>naturalWidth = 0, img_width = 0, img_height = 0\<rparr>),
      round_percent = (\<lambda>i len. if len = 0 then 0 else (200 * int i + int len) div (2 * int len)),
      canvas_fault = (\<lambda>i. False),
      updates_during_load = (\<lambda>i. []),
      updates_during_hold = (\<lambda>i. []),
      data_events = []\<rparr>"

definition demo_world :: "shot list \<Rightarrow> world" where
  "demo_world S =
     \<lparr>currentIndex = 0, isPlaying = True, progress = 0, isExporting = False,
      exportProgress = 0, startTimeRef = 0, ticker = Some 0,
      arrays = [S], shotsRef = 0, recorderState = NoRecorder, chunks = [],
      stopQueued = False, trace = []\<rparr>"

text \<open>
  A host under which the shot list is replaced by the empty list while cycle 0 awaits its
  image, and every shot loses its dialogue during each hold.
\<close>

definition mutating_host :: host where
  "mutating_host =
     demo_host\<lparr>updates_during_load := (\<lambda>i. if i = 0 then [SetShots []] else []),
               updates_during_hold := (\<lambda>i. [MapShots (\<lambda>sh. sh\<lparr>dialogue := None\<rparr>)])\<rparr>"

text \<open>A host whose canvas raises while shot 0 is composited.\<close>

definition faulty_host :: host where
  "faulty_host = demo_host\<lparr>canvas_fault := (\<lambda>i. i = 0)\<rparr>"

section \<open>Properties of the wrapping loops\<close>

lemma wrap_loop_concat:
  "wrap_loop mt maxWidth cs n line lines = (line', lines')
    \<Longrightarrow> concat lines' @ line' = concat lines @ line @ cs"
proof (induction cs arbitrary: n line lines)
  case Nil
  then show ?case by simp
next
  case (Cons c cs)
  show ?case
  proof (cases "mt (line @ [c]) > maxWidth \<and> n > 0")
    case True
    with Cons.prems have "wrap_loop mt maxWidth cs (Suc n) [c] (lines @ [line]) = (line', lines')"
      by simp
    from Cons.IH [OF this] show ?thesis by simp
  next
    case False
    with Cons.prems have "wrap_loop mt maxWidth cs (Suc n) (line @ [c]) lines = (line', lines')"
      by auto
    from Cons.IH [OF this] show ?thesis by simp
  qed
qed

lemma wrap_count_lockstep:
  "wrap_loop mt maxWidth cs n line lines = (line', lines')
    \<Longrightarrow> count_loop mt maxWidth cs n line k = (line', k + (length lines' - length lines))
      \<and> length lines \<le> length lines'"
proof (induction cs arbitrary: n line lines k)
  case Nil
  then show ?case by simp
next
  case (Cons c cs)
  show ?case
  proof (cases "mt (line @ [c]) > maxWidth \<and> n > 0")
    case True
    with Cons.prems have w: "wrap_loop mt maxWidth cs (Suc n) [c] (lines @ [line]) = (line', lines')"
      by simp
    from Cons.IH [OF w, of "Suc k"] True show ?thesis by auto
  next
    case False
    with Cons.prems have w: "wrap_loop mt maxWidth cs (Suc n) (line @ [c]) lines = (line', lines')"
      by auto
    from Cons.IH [OF w, of k] False show ?thesis by auto
  qed
qed

lemma count_lines_length: "count_lines mt maxWidth text = length (wrapped_lines mt maxWidth text)"
proof -
  obtain line' lines' where w: "wrap_loop mt maxWidth text 0 [] [] = (line', lines')"
    by (cases "wrap_loop mt maxWidth text 0 [] []")
  from wrap_count_lockstep [OF w, of 1] show ?thesis
    by (simp add: count_lines_def wrapped_lines_def w)
qed

lemma wrap_loop_ok:
  "wrap_loop mt maxWidth cs n line lines = (line', lines')
    \<Longrightarrow> \<forall>l \<in> set lines. line_ok mt maxWidth l
    \<Longrightarrow> (n = 0 \<and> line = [] \<and> (cs \<noteq> [] \<or> line_ok mt maxWidth []))
       \<or> (n > 0 \<and> line_ok mt maxWidth line)
    \<Longrightarrow> (\<forall>l \<in> set lines'. line_ok mt maxWidth l) \<and> line_ok mt maxWidth line'"
proof (induction cs arbitrary: n line lines)
  case Nil
  then show ?case by auto
next
  case (Cons c cs)
  have single: "line_ok mt maxWidth [c]"
    by (auto simp: line_ok_def)
  show ?case
  proof (cases "mt (line @ [c]) > maxWidth \<and> n > 0")
    case True
    with Cons.prems(1) have w: "wrap_loop mt maxWidth cs (Suc n) [c] (lines @ [line]) = (line', lines')"
      by simp
    from True Cons.prems(3) have "line_ok mt maxWidth line" by simp
    with Cons.prems(2) have "\<forall>l \<in> set (lines @ [line]). line_ok mt maxWidth l" by simp
    from Cons.IH [OF w this] single show ?thesis by simp
  next
    case False
    with Cons.prems(1) have w: "wrap_loop mt maxWidth cs (Suc n) (line @ [c]) lines = (line', lines')"
      by auto
    have "line_ok mt maxWidth (line @ [c])"
    proof (cases "n = 0")
      case True
      with Cons.prems(3) single show ?thesis by simp
    next
      case n: False
      with False show ?thesis
        by (simp add: line_ok_def)
    qed
    with Cons.IH [OF w Cons.prems(2)] show ?thesis by simp
  qed
qed

section \<open>Claims about the text wrapper\<close>

text \<open>
  C2. For every input string and every width budget, concatenating the lines produced by
  the line-breaking loop of \<open>drawWrappedText\<close>, in order, gives back the input string:
  no code unit is dropped, duplicated or reordered.
\<close>

theorem wrapped_lines_concat: "concat (wrapped_lines mt maxWidth text) = text"
proof -
  obtain line' lines' where w: "wrap_loop mt maxWidth text 0 [] [] = (line', lines')"
    by (cases "wrap_loop mt maxWidth text 0 [] []")
  from wrap_loop_concat [OF w] show ?thesis
    by (simp add: wrapped_lines_def w)
qed

text \<open>
  C10. The line count of the inline measuring loop of the export path equals the number of
  lines that \<open>drawWrappedText\<close> produces for the same text, measurement and width budget.
\<close>

theorem inline_count_eq_drawn_lines:
  "count_lines mt maxWidth text = length (wrapped_lines mt maxWidth text)"
proof -
  obtain line' lines' where w: "wrap_loop mt maxWidth text 0 [] [] = (line', lines')"
    by (cases "wrap_loop mt maxWidth text 0 [] []")
  from wrap_count_lockstep [OF w, of 1] show ?thesis
    by (simp add: count_lines_def wrapped_lines_def w)
qed

lemma wrapped_lines_width_bound:
  assumes "text \<noteq> [] \<or> mt [] \<le> maxWidth"
  shows "\<forall>l \<in> set (wrapped_lines mt maxWidth text).
            mt l \<le> maxWidth \<or> (length l = 1 \<and> mt l > maxWidth)"
proof -
  obtain line' lines' where w: "wrap_loop mt maxWidth text 0 [] [] = (line', lines')"
    by (cases "wrap_loop mt maxWidth text 0 [] []")
  from assms have start: "((0::nat) = 0 \<and> ([]::jsstring) = [] \<and> (text \<noteq> [] \<or> line_ok mt maxWidth []))
       \<or> ((0::nat) > 0 \<and> line_ok mt maxWidth [])"
    by (auto simp: line_ok_def)
  have "\<forall>l \<in> set ([]::jsstring list). line_ok mt maxWidth l" by simp
  from wrap_loop_ok [OF w this start]
  have "\<forall>l \<in> set (wrapped_lines mt maxWidth text). line_ok mt maxWidth l"
    by (simp add: wrapped_lines_def w)
  then show ?thesis by (simp add: line_ok_def)
qed

lemma wrap_loop_fits:
  "\<forall>k. 0 < k \<and> k \<le> length cs \<longrightarrow> mt (line @ take k cs) \<le> maxWidth
    \<Longrightarrow> wrap_loop mt maxWidth (cs @ rest) n line lines =
        wrap_loop mt maxWidth rest (n + length cs) (line @ cs) lines"
proof (induction cs arbitrary: n line)
  case Nil
  show ?case by simp
next
  case (Cons c cs)
  from Cons.prems [rule_format, of 1] have fit: "mt (line @ [c]) \<le> maxWidth" by simp
  have "\<forall>k. 0 < k \<and> k \<le> length cs \<longrightarrow> mt ((line @ [c]) @ take k cs) \<le> maxWidth"
  proof (intro allI impI)
    fix k assume "0 < k \<and> k \<le> length cs"
    with Cons.prems [rule_format, of "Suc k"] show "mt ((line @ [c]) @ take k cs) \<le> maxWidth"
      by simp
  qed
  from Cons.IH [OF this, of "Suc n"] fit show ?case by simp
qed

text \<open>
  C6. The wrapper cuts the text between UTF-16 code units (\<open>text.split('')\<close>), not between
  characters. On the 1920 by 1080 surface (font size 43, budget 1632), with every code unit
  half the font size wide, the dialogue of 74 letters \<open>x\<close> followed by U+1F600 is wrapped
  into two lines: the first ends with the high surrogate 0xD83D of the character, the second
  is its low surrogate 0xDE00 alone. The character is split.
\<close>

theorem wrapped_lines_splits_surrogate_pair:
  "wrapped_lines (half_em 43) (1920 * 0.85) (replicate 74 0x78 @ [0xD83D, 0xDE00])
     = [replicate 74 0x78 @ [0xD83D], [0xDE00]]
   \<and> splits_character
       (wrapped_lines (half_em 43) (1920 * 0.85) (replicate 74 0x78 @ [0xD83D, 0xDE00]))"
proof -
  let ?cs = "replicate 74 0x78 @ [0xD83D] :: jsstring"
  have len: "length ?cs = 75" by simp
  have fits: "\<forall>k. 0 < k \<and> k \<le> length ?cs \<longrightarrow> half_em 43 ([] @ take k ?cs) \<le> 1920 * 0.85"
  proof (intro allI impI)
    fix k assume "0 < k \<and> k \<le> length ?cs"
    then have "real (length (take k ?cs)) \<le> 75" by simp
    then show "half_em 43 ([] @ take k ?cs) \<le> 1920 * 0.85"
      unfolding half_em_def by simp
  qed
  have over: "half_em 43 (?cs @ [0xDE00]) > 1920 * 0.85"
    by (simp add: half_em_def)
  have "wrap_loop (half_em 43) (1920 * 0.85) (?cs @ [0xDE00]) 0 [] []
      = wrap_loop (half_em 43) (1920 * 0.85) [0xDE00] (0 + length ?cs) ([] @ ?cs) []"
    by (rule wrap_loop_fits [OF fits])
  also have "\<dots> = ([0xDE00], [?cs])"
    using over by simp
  finally have "wrapped_lines (half_em 43) (1920 * 0.85) (?cs @ [0xDE00]) = [?cs, [0xDE00]]"
    by (simp add: wrapped_lines_def)
  then have w: "wrapped_lines (half_em 43) (1920 * 0.85) (replicate 74 0x78 @ [0xD83D, 0xDE00])
      = [?cs, [0xDE00]]"
    by simp
  have "splits_character [?cs, [0xDE00]]"
    by (simp add: is_high_surrogate_def is_low_surrogate_def)
  with w show ?thesis by simp
qed

section \<open>Claims about the frame compositor\<close>

lemma canvas_size_positive: "0 < fst (canvas_size ar) \<and> 0 < snd (canvas_size ar)"
  by (cases ar) simp_all

text \<open>
  C3. For an image with positive dimensions on a surface: when the image's aspect ratio
  exceeds the surface's, the drawn height is the surface height, \<open>offsetY = 0\<close> and
  \<open>offsetX = (width - drawW) / 2\<close>, so the overflow to the left of the surface equals the
  overflow to its right; otherwise the drawn width is the surface width, \<open>offsetX = 0\<close> and
  \<open>offsetY = (height - drawH) / 2\<close>, with equal overflow above and below. In both cases the
  drawn image covers the surface.
\<close>

theorem cover_fit_centered:
  assumes "0 < img_width img" and "0 < img_height img" and "0 < width" and "0 < height"
  shows "let p = cover_fit img width height in
           if real (img_width img) / real (img_height img) > width / height
           then drawH p = height \<and> offsetY p = 0 \<and> offsetX p = (width - drawW p) / 2
                \<and> 0 - offsetX p = (offsetX p + drawW p) - width \<and> width \<le> drawW p
           else drawW p = width \<and> offsetX p = 0 \<and> offsetY p = (height - drawH p) / 2
                \<and> 0 - offsetY p = (offsetY p + drawH p) - height \<and> height \<le> drawH p"
proof -
  define r where "r = real (img_width img) / real (img_height img)"
  from assms(1,2) have rpos: "0 < r" by (simp add: r_def)
  show ?thesis
  proof (cases "r > width / height")
    case True
    define D where "D = height * r"
    from True assms(4) have cover: "width \<le> D"
      by (simp add: D_def pos_divide_less_eq mult.commute)
    from True have "cover_fit img width height =
        \<lparr>offsetX = (width - D) / 2, offsetY = 0, drawW = D, drawH = height\<rparr>"
      by (simp add: cover_fit_def Let_def r_def D_def)
    moreover have "0 - (width - D) / 2 = ((width - D) / 2 + D) - width"
      by (simp add: field_simps)
    ultimately show ?thesis using True cover
      by (simp add: Let_def r_def)
  next
    case False
    define D where "D = width / r"
    from False have "r \<le> width / height" by simp
    with assms(4) have "r * height \<le> width" by (simp add: pos_le_divide_eq)
    with rpos have cover: "height \<le> D" by (simp add: D_def pos_le_divide_eq mult.commute)
    from False have "cover_fit img width height =
        \<lparr>offsetX = 0, offsetY = (height - D) / 2, drawW = width, drawH = D\<rparr>"
      by (simp add: cover_fit_def Let_def r_def D_def)
    moreover have "0 - (height - D) / 2 = ((height - D) / 2 + D) - height"
      by (simp add: field_simps)
    ultimately show ?thesis using False cover
      by (simp add: Let_def r_def)
  qed
qed

theorem cover_fit_centered_witness:
  "cover_fit \<lparr>naturalWidth = 4000, img_width = 4000, img_height = 1000\<rparr> 1920 1080
     = \<lparr>offsetX = - 1200, offsetY = 0, drawW = 4320, drawH = 1080\<rparr>
   \<and> cover_fit \<lparr>naturalWidth = 500, img_width = 500, img_height = 1000\<rparr> 1920 1080
     = \<lparr>offsetX = 0, offsetY = - 1380, drawW = 1920, drawH = 3840\<rparr>"
  using cover_fit_centered [of "\<lparr>naturalWidth = 4000, img_width = 4000, img_height = 1000\<rparr>" 1920 1080]
    cover_fit_centered [of "\<lparr>naturalWidth = 500, img_width = 500, img_height = 1000\<rparr>" 1920 1080]
  by (simp add: cover_fit_def Let_def)

lemma draw_lines_count:
  "drawWrappedText mt d x y maxWidth lineHeight =
     concat (map (\<lambda>idx. [StrokeText (wrapped_lines mt maxWidth d ! idx) x (y + real idx * lineHeight),
                          FillText (wrapped_lines mt maxWidth d ! idx) x (y + real idx * lineHeight)])
                 [0 ..< count_lines mt maxWidth d])"
  by (simp add: drawWrappedText_def draw_lines_def count_lines_length)

text \<open>
  C7. For a shot with non-empty dialogue on a surface of height \<open>H\<close>, with font size
  \<open>\<lfloor>0.04 H\<rfloor>\<close>, line height 1.35 times the font size and \<open>lineCount\<close> the count of the
  inline loop: the frame is the background, the gradient strap, and then line \<open>idx\<close> of the
  wrapped text stroked and filled at \<open>startY + idx * lineHeight\<close> for
  \<open>idx < lineCount\<close>, where \<open>startY = H - 0.08 H - lineCount * lineHeight\<close>; so the block
  ends at \<open>H - 0.08 H\<close>.
\<close>

theorem subtitle_block_position:
  assumes "dialogue sh = Some d" and "d \<noteq> []"
  shows "let fontSize = \<lfloor>0.04 * H\<rfloor>;
             lineHeight = 1.35 * real_of_int fontSize;
             lns = wrapped_lines (mt fontSize) (W * 0.85) d;
             lineCount = count_lines (mt fontSize) (W * 0.85) d;
             startY = H - 0.08 * H - real lineCount * lineHeight
         in compose_frame mt W H sh img =
              draw_background W H img @ gradient_strap W H #
              concat (map (\<lambda>idx. [StrokeText (lns ! idx) (W / 2) (startY + real idx * lineHeight),
                                   FillText (lns ! idx) (W / 2) (startY + real idx * lineHeight)])
                          [0 ..< lineCount])
            \<and> length lns = lineCount
            \<and> startY + real lineCount * lineHeight = H - 0.08 * H"
proof -
  have fs: "font_size H = \<lfloor>0.04 * H\<rfloor>"
    by (simp add: font_size_def mult.commute)
  have sy: "subtitle_start_y mt W H d =
      H - 0.08 * H - real (count_lines (mt \<lfloor>0.04 * H\<rfloor>) (W * 0.85) d) * (1.35 * real_of_int \<lfloor>0.04 * H\<rfloor>)"
    by (simp add: subtitle_start_y_def Let_def fs mult.commute)
  have "draw_subtitles mt W H d = gradient_strap W H #
      drawWrappedText (mt \<lfloor>0.04 * H\<rfloor>) d (W / 2) (subtitle_start_y mt W H d) (W * 0.85)
        (1.35 * real_of_int \<lfloor>0.04 * H\<rfloor>)"
    by (simp add: draw_subtitles_def Let_def fs mult.commute)
  with assms have "compose_frame mt W H sh img = draw_background W H img @ gradient_strap W H #
      drawWrappedText (mt \<lfloor>0.04 * H\<rfloor>) d (W / 2) (subtitle_start_y mt W H d) (W * 0.85)
        (1.35 * real_of_int \<lfloor>0.04 * H\<rfloor>)"
    by (simp add: compose_frame_def)
  then show ?thesis
    unfolding Let_def draw_lines_count sy
    by (simp add: count_lines_length)
qed

theorem subtitle_block_position_witness:
  "subtitle_start_y half_em 1920 1080 [0x48, 0x69] = 1080 - 0.08 * 1080 - 1 * (1.35 * 43)
   \<and> compose_frame half_em 1920 1080
        \<lparr>shot_id = [0x31], dialogue = Some [0x48, 0x69], imageUrl = None\<rparr>
        \<lparr>naturalWidth = 0, img_width = 0, img_height = 0\<rparr>
      = [FillRect (Color ''black'') 0 0 1920 1080,
         FillRect (Color ''#333'') 0 0 1920 1080,
         FillText (js ''Missing Image'') 960 540,
         gradient_strap 1920 1080,
         StrokeText [0x48, 0x69] 960 (93555 / 100),
         FillText [0x48, 0x69] 960 (93555 / 100)]"
proof -
  let ?sh = "\<lparr>shot_id = [0x31], dialogue = Some [0x48, 0x69], imageUrl = None\<rparr>"
  have d: "dialogue ?sh = Some [0x48, 0x69]" by simp
  have ne: "[0x48, 0x69 :: code_unit] \<noteq> []" by simp
  have fs: "\<lfloor>0.04 * (1080::real)\<rfloor> = 43" by simp
  have n: "count_lines (half_em 43) (1920 * 0.85) [0x48, 0x69] = 1"
    by (simp add: count_lines_def half_em_def)
  have l: "wrapped_lines (half_em 43) (1920 * 0.85) [0x48, 0x69] = [[0x48, 0x69]]"
    by (simp add: wrapped_lines_def half_em_def)
  have sy: "subtitle_start_y half_em 1920 1080 [0x48, 0x69] = 1080 - 0.08 * 1080 - 1 * (1.35 * 43)"
    using fs n by (simp add: subtitle_start_y_def font_size_def Let_def mult.commute)
  have bg: "draw_background 1920 1080 \<lparr>naturalWidth = 0, img_width = 0, img_height = 0\<rparr>
      = [FillRect (Color ''black'') 0 0 1920 1080, FillRect (Color ''#333'') 0 0 1920 1080,
         FillText (js ''Missing Image'') 960 540]"
    by (simp add: draw_background_def)
  from subtitle_block_position [OF d ne, of 1080 half_em 1920
      "\<lparr>naturalWidth = 0, img_width = 0, img_height = 0\<rparr>"]
  show ?thesis
    unfolding Let_def fs n l bg sy by simp
qed

section \<open>Claims about the playback clock\<close>

lemma playback_effect_fields:
  "currentIndex (playback_effect now s) = currentIndex s"
  "isPlaying (playback_effect now s) = isPlaying s"
  "isExporting (playback_effect now s) = isExporting s"
  "progress (playback_effect now s) = progress s"
  "ticker (playback_effect now s) = (if isPlaying s \<and> \<not> isExporting s then Some (currentIndex s) else None)"
  by (simp_all add: playback_effect_def)

lemma render_after_index: "currentIndex (render_after old now s) = currentIndex s"
  by (simp add: render_after_def playback_effect_fields)

lemma dispatch_index:
  assumes "0 \<le> currentIndex s" and "currentIndex s < int len"
    and "ticker s = None \<or> ticker s = Some (currentIndex s)"
    and "\<forall>idx. ev = ClickThumb idx \<longrightarrow> idx < len"
  shows "0 \<le> currentIndex (dispatch len ev now s) \<and> currentIndex (dispatch len ev now s) < int len"
  using assms
  by (cases ev)
    (auto simp: tick_def handleJump_def togglePlay_def handleNext_def handlePrev_def
       begin_export_def on_export_stopped_def on_export_failed_def Let_def
       split: option.splits)

lemma dispatch_ticker:
  assumes "ticker s = None \<or> ticker s = Some (currentIndex s)"
  shows "ticker (step len ev now now' s) = None
       \<or> ticker (step len ev now now' s) = Some (currentIndex (step len ev now now' s))"
  using assms
  by (cases ev)
    (auto simp: step_def render_after_def playback_effect_def tick_def handleJump_def
       togglePlay_def handleNext_def handlePrev_def begin_export_def on_export_stopped_def
       on_export_failed_def Let_def split: option.splits if_splits)

lemma reachable_inv:
  assumes "reachable len s" and "0 < len"
  shows "0 \<le> currentIndex s \<and> currentIndex s < int len
       \<and> (ticker s = None \<or> ticker s = Some (currentIndex s))"
  using assms
proof (induction rule: reachable.induct)
  case (reach_mount now)
  then show ?case by (simp add: mount_def playback_effect_def)
next
  case (reach_step s ev now now')
  then have ih: "0 \<le> currentIndex s" "currentIndex s < int len"
      "ticker s = None \<or> ticker s = Some (currentIndex s)"
    by simp_all
  from dispatch_index [OF ih reach_step.hyps(2), of now]
  have "0 \<le> currentIndex (step len ev now now' s) \<and> currentIndex (step len ev now now' s) < int len"
    by (simp add: step_def render_after_index)
  with dispatch_ticker [OF ih(3), of len ev now now'] show ?case by simp
qed

text \<open>
  C8. In every state that a mounted editor over a non-empty storyboard can reach, the shot
  index lies between 0 and shot count - 1. When an interval is live, the index is the last
  one and a tick finds the progress at 100\% or more, that tick leaves the index where it
  is, sets the progress to exactly 100, stops playback and clears the interval; every
  later tick changes nothing.
\<close>

theorem playback_stops_at_last_shot:
  assumes "reachable len s" and "0 < len"
  shows "0 \<le> currentIndex s \<and> currentIndex s \<le> int len - 1
       \<and> (ticker s \<noteq> None \<and> currentIndex s = int len - 1
            \<and> ((now - startTimeRef s) / DURATION_PER_SHOT) * 100 \<ge> 100
          \<longrightarrow> (let s' = step len Tick now now' s
               in currentIndex s' = int len - 1 \<and> progress s' = 100 \<and> \<not> isPlaying s'
                  \<and> ticker s' = None \<and> (\<forall>t t'. step len Tick t t' s' = s')))"
proof -
  from reachable_inv [OF assms]
  have inv: "0 \<le> currentIndex s" "currentIndex s < int len"
      "ticker s = None \<or> ticker s = Some (currentIndex s)"
    by simp_all
  have "let s' = step len Tick now now' s
        in currentIndex s' = int len - 1 \<and> progress s' = 100 \<and> \<not> isPlaying s'
           \<and> ticker s' = None \<and> (\<forall>t t'. step len Tick t t' s' = s')"
    if live: "ticker s \<noteq> None" and last: "currentIndex s = int len - 1"
      and full: "((now - startTimeRef s) / DURATION_PER_SHOT) * 100 \<ge> 100"
  proof -
    from live inv(3) have tk: "ticker s = Some (currentIndex s)" by auto
    from tk last full have t: "tick len now s = s\<lparr>isPlaying := False, progress := 100, ticker := None\<rparr>"
      by (simp add: tick_def Let_def)
    have s': "step len Tick now now' s = s\<lparr>isPlaying := False, progress := 100, ticker := None\<rparr>"
      by (simp add: step_def t render_after_def playback_effect_def)
    have "step len Tick t' t'' (s\<lparr>isPlaying := False, progress := 100, ticker := None\<rparr>)
        = s\<lparr>isPlaying := False, progress := 100, ticker := None\<rparr>" for t' t''
      by (simp add: step_def tick_def render_after_def)
    with s' last show ?thesis by (simp add: Let_def)
  qed
  with inv show ?thesis by simp
qed

theorem playback_stops_at_last_shot_witness:
  "reachable 2 (step 2 Tick 4000 4000 (mount 0))
   \<and> currentIndex (step 2 Tick 4000 4000 (mount 0)) = 1
   \<and> currentIndex (step 2 Tick 8000 8000 (step 2 Tick 4000 4000 (mount 0))) = 1
   \<and> progress (step 2 Tick 8000 8000 (step 2 Tick 4000 4000 (mount 0))) = 100
   \<and> ticker (step 2 Tick 8000 8000 (step 2 Tick 4000 4000 (mount 0))) = None"
proof -
  have r: "reachable 2 (step 2 Tick 4000 4000 (mount 0))"
    by (rule reach_step [OF reach_mount]) simp
  have s1: "step 2 Tick 4000 4000 (mount 0) =
      \<lparr>currentIndex = 1, isPlaying = True, progress = 0, isExporting = False,
       exportProgress = 0, startTimeRef = 4000, ticker = Some 1\<rparr>"
    by (simp add: step_def mount_def tick_def render_after_def playback_effect_def
        DURATION_PER_SHOT_def Let_def)
  from playback_stops_at_last_shot [OF r, of 8000 8000] r show ?thesis
    unfolding s1 by (simp add: DURATION_PER_SHOT_def Let_def)
qed

section \<open>Properties of the export loop\<close>

lemma apply_update_fields:
  "trace (apply_update u v) = trace v"
  "recorderState (apply_update u v) = recorderState v"
  "isExporting (apply_update u v) = isExporting v"
  "chunks (apply_update u v) = chunks v"
  "stopQueued (apply_update u v) = stopQueued v"
  "length (arrays (apply_update u v)) = Suc (length (arrays v))"
  by (simp_all add: apply_update_def Let_def)

lemma apply_update_deref:
  "a < length (arrays v) \<Longrightarrow> deref (apply_update u v) a = deref v a"
  by (simp add: deref_def apply_update_def Let_def nth_append)

lemma apply_updates_fields:
  "trace (apply_updates us v) = trace v
   \<and> recorderState (apply_updates us v) = recorderState v
   \<and> isExporting (apply_updates us v) = isExporting v
   \<and> chunks (apply_updates us v) = chunks v
   \<and> stopQueued (apply_updates us v) = stopQueued v
   \<and> length (arrays v) \<le> length (arrays (apply_updates us v))"
proof (induction us arbitrary: v)
  case Nil
  show ?case by (simp add: apply_updates_def)
next
  case (Cons u us)
  from Cons.IH [of "apply_update u v"] show ?case
    by (simp add: apply_updates_def apply_update_fields)
qed

lemma apply_updates_deref:
  "a < length (arrays v) \<Longrightarrow> deref (apply_updates us v) a = deref v a"
proof (induction us arbitrary: v)
  case Nil
  show ?case by (simp add: apply_updates_def)
next
  case (Cons u us)
  from Cons.prems have "a < length (arrays (apply_update u v))"
    by (simp add: apply_update_fields)
  from Cons.IH [OF this] apply_update_deref [OF Cons.prems, of u] show ?case
    by (simp add: apply_updates_def)
qed

lemma cycle_no_fault:
  assumes "sb < length (arrays w)" and "\<not> canvas_fault h i"
  shows "fst (cycle h sb W H i w) = None
       \<and> trace (snd (cycle h sb W H i w)) = trace w @ cycle_events h W H i (deref w sb ! i)
       \<and> deref (snd (cycle h sb W H i w)) sb = deref w sb
       \<and> sb < length (arrays (snd (cycle h sb W H i w)))
       \<and> recorderState (snd (cycle h sb W H i w)) = recorderState w
       \<and> isExporting (snd (cycle h sb W H i w)) = isExporting w
       \<and> chunks (snd (cycle h sb W H i w)) = chunks w
       \<and> stopQueued (snd (cycle h sb W H i w)) = stopQueued w"
proof -
  let ?w1 = "w\<lparr>exportProgress := round_percent h i (length (deref w sb))\<rparr>"
  let ?w2 = "apply_updates (updates_during_load h i) ?w1"
  let ?w3 = "?w2\<lparr>trace := trace ?w2 @ cycle_events h W H i (deref w sb ! i)\<rparr>"
  let ?w4 = "apply_updates (updates_during_hold h i) ?w3"
  from assms(2) have c: "cycle h sb W H i w = (None, ?w4)"
    by (simp add: cycle_def Let_def)
  from assms(1) have a1: "sb < length (arrays ?w1)" by simp
  have d1: "deref ?w1 sb = deref w sb" by (simp add: deref_def)
  have f2: "trace ?w2 = trace w" "recorderState ?w2 = recorderState w"
      "isExporting ?w2 = isExporting w" "chunks ?w2 = chunks w" "stopQueued ?w2 = stopQueued w"
      "length (arrays ?w1) \<le> length (arrays ?w2)"
    using apply_updates_fields [of "updates_during_load h i" ?w1] by simp_all
  from a1 f2(6) have a3: "sb < length (arrays ?w3)" by simp
  have d2: "deref ?w2 sb = deref w sb"
    using apply_updates_deref [OF a1, of "updates_during_load h i"] d1 by simp
  have d3: "deref ?w3 sb = deref ?w2 sb" by (simp add: deref_def)
  have d4: "deref ?w4 sb = deref w sb"
    using apply_updates_deref [OF a3, of "updates_during_hold h i"] d3 d2 by simp
  have f4: "trace ?w4 = trace ?w3" "recorderState ?w4 = recorderState ?w3"
      "isExporting ?w4 = isExporting ?w3" "chunks ?w4 = chunks ?w3"
      "stopQueued ?w4 = stopQueued ?w3" "length (arrays ?w3) \<le> length (arrays ?w4)"
    using apply_updates_fields [of "updates_during_hold h i" ?w3] by simp_all
  from a3 f4(6) have a4: "sb < length (arrays ?w4)" by simp
  show ?thesis
    unfolding c fst_conv snd_conv using d4 a4 f4(1-5) f2(1-5) by simp
qed

lemma cycle_fault:
  assumes "canvas_fault h i"
  shows "fst (cycle h sb W H i w) = Some (CanvasFault i)
       \<and> trace (snd (cycle h sb W H i w)) = trace w
       \<and> recorderState (snd (cycle h sb W H i w)) = recorderState w
       \<and> isExporting (snd (cycle h sb W H i w)) = isExporting w
       \<and> stopQueued (snd (cycle h sb W H i w)) = stopQueued w"
  using assms apply_updates_fields [of "updates_during_load h i"
      "w\<lparr>exportProgress := round_percent h i (length (deref w sb))\<rparr>"]
  by (simp add: cycle_def Let_def)

lemma export_loop_ok:
  assumes "sb < length (arrays w)"
    and "\<forall>j. i \<le> j \<and> j < length (deref w sb) \<longrightarrow> \<not> canvas_fault h j"
  shows "fst (export_loop h sb W H i w) = None
       \<and> trace (snd (export_loop h sb W H i w)) =
           trace w @ concat (map (\<lambda>j. cycle_events h W H j (deref w sb ! j))
                                 [i ..< length (deref w sb)])
       \<and> recorderState (snd (export_loop h sb W H i w)) = recorderState w
       \<and> isExporting (snd (export_loop h sb W H i w)) = isExporting w
       \<and> chunks (snd (export_loop h sb W H i w)) = chunks w
       \<and> stopQueued (snd (export_loop h sb W H i w)) = stopQueued w"
  using assms
proof (induction k \<equiv> "length (deref w sb) - i" arbitrary: i w)
  case 0
  then have "\<not> i < length (deref w sb)" by simp
  then show ?case
    by (subst (1 2 3 4 5 6) export_loop.simps) simp
next
  case (Suc k)
  then have lt: "i < length (deref w sb)" by simp
  with Suc.prems(2) have nf: "\<not> canvas_fault h i" by simp
  obtain e w' where c: "cycle h sb W H i w = (e, w')"
    by (cases "cycle h sb W H i w")
  from cycle_no_fault [OF Suc.prems(1) nf, of W H] c
  have e: "e = None" and tr: "trace w' = trace w @ cycle_events h W H i (deref w sb ! i)"
    and d: "deref w' sb = deref w sb" and a: "sb < length (arrays w')"
    and f: "recorderState w' = recorderState w" "isExporting w' = isExporting w"
      "chunks w' = chunks w" "stopQueued w' = stopQueued w"
    by simp_all
  have unfold: "export_loop h sb W H i w = export_loop h sb W H (Suc i) w'"
    using lt c e by (subst export_loop.simps) simp
  from Suc.hyps(2) d have k: "k = length (deref w' sb) - Suc i" by simp
  from Suc.prems(2) d have nf': "\<forall>j. Suc i \<le> j \<and> j < length (deref w' sb) \<longrightarrow> \<not> canvas_fault h j"
    by simp
  from Suc.hyps(1) [OF k a nf'] lt show ?case
    unfolding unfold by (simp add: tr d f upt_conv_Cons)
qed

lemma cycles_read:
  "List.map_filter frame_shot (concat (map (\<lambda>i. cycle_events h W H i (f i)) ks)) = map f ks"
  "List.map_filter frame_index (concat (map (\<lambda>i. cycle_events h W H i (f i)) ks)) = ks"
  "length (filter is_hold (concat (map (\<lambda>i. cycle_events h W H i (f i)) ks))) = length ks"
  "count_list (concat (map (\<lambda>i. cycle_events h W H i (f i)) ks)) RecorderStop = 0"
  by (induction ks) (simp_all add: cycle_events_def)

lemma map_filter_snoc_stop:
  "List.map_filter frame_shot (xs @ [RecorderStop]) = List.map_filter frame_shot xs"
  "List.map_filter frame_index (xs @ [RecorderStop]) = List.map_filter frame_index xs"
  by (induction xs) (simp_all split: option.splits)

lemma export_try_ok:
  assumes "ctx_available h" and "recorder_supported h" and "shotsRef w < length (arrays w)"
    and "\<forall>i < length (arrays w ! shotsRef w). \<not> canvas_fault h i"
  shows "fst (export_try h w) = None
       \<and> trace (snd (export_try h w)) =
           trace w @ RecorderStart #
           concat (map (\<lambda>i. cycle_events h (fst (canvas_size (aspectRatio h)))
                               (snd (canvas_size (aspectRatio h))) i (arrays w ! shotsRef w ! i))
                       [0 ..< length (arrays w ! shotsRef w)]) @ [RecorderStop]
       \<and> recorderState (snd (export_try h w)) = Inactive
       \<and> stopQueued (snd (export_try h w))
       \<and> chunks (snd (export_try h w)) = []
       \<and> isExporting (snd (export_try h w)) = isExporting w"
proof -
  obtain W H where wh: "canvas_size (aspectRatio h) = (W, H)"
    by (cases "canvas_size (aspectRatio h)")
  let ?w1 = "w\<lparr>recorderState := Recording, chunks := [], stopQueued := False,
                 trace := trace w @ [RecorderStart]\<rparr>"
  let ?sb = "shotsRef w"
  from assms(3) have a1: "?sb < length (arrays ?w1)" by simp
  from assms(3) have d1: "deref ?w1 ?sb = arrays w ! ?sb" by (simp add: deref_def)
  from assms(4) d1 have nf: "\<forall>j. 0 \<le> j \<and> j < length (deref ?w1 ?sb) \<longrightarrow> \<not> canvas_fault h j"
    by simp
  obtain e w2 where l: "export_loop h ?sb W H 0 ?w1 = (e, w2)"
    by (cases "export_loop h ?sb W H 0 ?w1")
  from export_loop_ok [OF a1 nf, of W H] l d1
  have e: "e = None"
    and tr: "trace w2 = trace w @ RecorderStart #
        concat (map (\<lambda>j. cycle_events h W H j (arrays w ! ?sb ! j)) [0 ..< length (arrays w ! ?sb)])"
    and f: "isExporting w2 = isExporting w" "chunks w2 = []"
    by simp_all
  from assms(1,2) wh l e
  have "export_try h w = (None, w2\<lparr>recorderState := Inactive, stopQueued := True,
                                  trace := trace w2 @ [RecorderStop]\<rparr>)"
    by (simp add: export_try_def Let_def)
  with tr f wh show ?thesis by simp
qed

lemma handleExportVideo_ok:
  assumes "\<not> isExporting w" and "ctx_available h" and "recorder_supported h"
    and "shotsRef w < length (arrays w)"
    and "\<forall>i < length (arrays w ! shotsRef w). \<not> canvas_fault h i"
  shows "new_events w (handleExportVideo h w) =
           RecorderStart #
           concat (map (\<lambda>i. cycle_events h (fst (canvas_size (aspectRatio h)))
                               (snd (canvas_size (aspectRatio h))) i (arrays w ! shotsRef w ! i))
                       [0 ..< length (arrays w ! shotsRef w)]) @ [RecorderStop]"
    and "recorderState (handleExportVideo h w) = Inactive"
    and "stopQueued (handleExportVideo h w)"
    and "chunks (handleExportVideo h w) = []"
    and "trace w = take (length (trace w)) (trace (handleExportVideo h w))"
proof -
  let ?b = "begin_export w"
  have b: "shotsRef ?b = shotsRef w" "arrays ?b = arrays w" "trace ?b = trace w"
    by (simp_all add: begin_export_def)
  from assms(4,5) have "shotsRef ?b < length (arrays ?b)"
      "\<forall>i < length (arrays ?b ! shotsRef ?b). \<not> canvas_fault h i"
    by (simp_all add: b)
  from export_try_ok [OF assms(2,3) this]
  have t: "fst (export_try h ?b) = None"
    "trace (snd (export_try h ?b)) =
           trace w @ RecorderStart #
           concat (map (\<lambda>i. cycle_events h (fst (canvas_size (aspectRatio h)))
                               (snd (canvas_size (aspectRatio h))) i (arrays w ! shotsRef w ! i))
                       [0 ..< length (arrays w ! shotsRef w)]) @ [RecorderStop]"
    "recorderState (snd (export_try h ?b)) = Inactive"
    "stopQueued (snd (export_try h ?b))"
    "chunks (snd (export_try h ?b)) = []"
    by (simp_all add: b)
  obtain e w' where r: "export_try h ?b = (e, w')" by (cases "export_try h ?b")
  with t(1) have "e = None" by simp
  with assms(1) r have hv: "handleExportVideo h w = w'"
    by (simp add: handleExportVideo_def)
  from t r show "new_events w (handleExportVideo h w) =
           RecorderStart #
           concat (map (\<lambda>i. cycle_events h (fst (canvas_size (aspectRatio h)))
                               (snd (canvas_size (aspectRatio h))) i (arrays w ! shotsRef w ! i))
                       [0 ..< length (arrays w ! shotsRef w)]) @ [RecorderStop]"
    by (simp add: hv new_events_def)
  from t r show "recorderState (handleExportVideo h w) = Inactive" by (simp add: hv)
  from t r show "stopQueued (handleExportVideo h w)" by (simp add: hv)
  from t r show "chunks (handleExportVideo h w) = []" by (simp add: hv)
  from t r show "trace w = take (length (trace w)) (trace (handleExportVideo h w))"
    by (simp add: hv)
qed

lemma export_loop_fault:
  assumes "sb < length (arrays w)" and "i \<le> k" and "k < length (deref w sb)"
    and "canvas_fault h k" and "\<forall>j. i \<le> j \<and> j < k \<longrightarrow> \<not> canvas_fault h j"
  shows "fst (export_loop h sb W H i w) = Some (CanvasFault k)
       \<and> trace (snd (export_loop h sb W H i w)) =
           trace w @ concat (map (\<lambda>j. cycle_events h W H j (deref w sb ! j)) [i ..< k])
       \<and> recorderState (snd (export_loop h sb W H i w)) = recorderState w
       \<and> isExporting (snd (export_loop h sb W H i w)) = isExporting w
       \<and> stopQueued (snd (export_loop h sb W H i w)) = stopQueued w"
  using assms
proof (induction d \<equiv> "k - i" arbitrary: i w)
  case 0
  then have ik: "i = k" by simp
  obtain e w' where c: "cycle h sb W H k w = (e, w')"
    by (cases "cycle h sb W H k w")
  from cycle_fault [OF "0.prems"(4), of sb W H w] c
  have e: "e = Some (CanvasFault k)" and f: "trace w' = trace w"
      "recorderState w' = recorderState w" "isExporting w' = isExporting w"
      "stopQueued w' = stopQueued w"
    by simp_all
  have "export_loop h sb W H k w = (Some (CanvasFault k), w')"
    using "0.prems"(3) c e by (subst export_loop.simps) simp
  with f ik show ?case by simp
next
  case (Suc d)
  then have lt: "i < k" by simp
  with Suc.prems(3) have lt': "i < length (deref w sb)" by simp
  from lt Suc.prems(5) have nf: "\<not> canvas_fault h i" by simp
  obtain e w' where c: "cycle h sb W H i w = (e, w')"
    by (cases "cycle h sb W H i w")
  from cycle_no_fault [OF Suc.prems(1) nf, of W H] c
  have e: "e = None" and tr: "trace w' = trace w @ cycle_events h W H i (deref w sb ! i)"
    and d: "deref w' sb = deref w sb" and a: "sb < length (arrays w')"
    and f: "recorderState w' = recorderState w" "isExporting w' = isExporting w"
      "stopQueued w' = stopQueued w"
    by simp_all
  have unfold: "export_loop h sb W H i w = export_loop h sb W H (Suc i) w'"
    using lt' c e by (subst export_loop.simps) simp
  from Suc.hyps(2) have k: "d = k - Suc i" by simp
  from lt have le: "Suc i \<le> k" by simp
  from Suc.prems(3) d have kl: "k < length (deref w' sb)" by simp
  from Suc.prems(5) have nf': "\<forall>j. Suc i \<le> j \<and> j < k \<longrightarrow> \<not> canvas_fault h j" by simp
  from Suc.hyps(1) [OF k a le kl Suc.prems(4) nf'] lt show ?case
    unfolding unfold by (simp add: tr d f upt_conv_Cons)
qed

lemma handleExportVideo_fault:
  assumes "\<not> isExporting w" and "ctx_available h" and "recorder_supported h"
    and "shotsRef w < length (arrays w)" and "k < length (arrays w ! shotsRef w)"
    and "canvas_fault h k" and "\<forall>j < k. \<not> canvas_fault h j"
  shows "trace (handleExportVideo h w) =
           trace w @ RecorderStart #
           concat (map (\<lambda>i. cycle_events h (fst (canvas_size (aspectRatio h)))
                               (snd (canvas_size (aspectRatio h))) i (arrays w ! shotsRef w ! i))
                       [0 ..< k]) @ [ConsoleError (CanvasFault k), Alert]
       \<and> recorderState (handleExportVideo h w) = Recording
       \<and> \<not> stopQueued (handleExportVideo h w)
       \<and> \<not> isExporting (handleExportVideo h w)"
proof -
  obtain W H where wh: "canvas_size (aspectRatio h) = (W, H)"
    by (cases "canvas_size (aspectRatio h)")
  let ?b = "begin_export w"
  let ?w1 = "?b\<lparr>recorderState := Recording, chunks := [], stopQueued := False,
                  trace := trace ?b @ [RecorderStart]\<rparr>"
  let ?sb = "shotsRef w"
  have b: "shotsRef ?b = ?sb" by (simp add: begin_export_def)
  from assms(4) have a1: "?sb < length (arrays ?w1)" by (simp add: begin_export_def)
  from assms(4) have d1: "deref ?w1 ?sb = arrays w ! ?sb"
    by (simp add: deref_def begin_export_def)
  from assms(5) d1 have kl: "k < length (deref ?w1 ?sb)" by simp
  from assms(7) have nf: "\<forall>j. 0 \<le> j \<and> j < k \<longrightarrow> \<not> canvas_fault h j" by simp
  obtain e w2 where l: "export_loop h ?sb W H 0 ?w1 = (e, w2)"
    by (cases "export_loop h ?sb W H 0 ?w1")
  from export_loop_fault [OF a1 _ kl assms(6) nf, of W H] l d1
  have e: "e = Some (CanvasFault k)"
    and tr: "trace w2 = trace w @ RecorderStart #
        concat (map (\<lambda>j. cycle_events h W H j (arrays w ! ?sb ! j)) [0 ..< k])"
    and f: "recorderState w2 = Recording" "\<not> stopQueued w2"
    by (simp_all add: begin_export_def)
  from assms(2,3) wh l e
  have "export_try h ?b = (Some (CanvasFault k), w2)"
    by (simp add: export_try_def Let_def b)
  with assms(1) have "handleExportVideo h w = export_catch (CanvasFault k) w2"
    by (simp add: handleExportVideo_def)
  with tr f wh show ?thesis
    by (simp add: export_catch_def on_export_failed_def)
qed

lemma foldl_ondataavailable:
  "chunks (foldl (\<lambda>w d. ondataavailable d w) w ds) = chunks w @ filter (\<lambda>d. length d > 0) ds
   \<and> trace (foldl (\<lambda>w d. ondataavailable d w) w ds) = trace w
   \<and> recorderState (foldl (\<lambda>w d. ondataavailable d w) w ds) = recorderState w"
proof (induction ds arbitrary: w)
  case Nil
  show ?case by simp
next
  case (Cons d ds)
  from Cons.IH [of "ondataavailable d w"] show ?case
    by (simp add: ondataavailable_def)
qed

lemma export_run_ok:
  assumes "\<not> isExporting w" and "ctx_available h" and "recorder_supported h"
    and "shotsRef w < length (arrays w)"
    and "\<forall>i < length (arrays w ! shotsRef w). \<not> canvas_fault h i"
  shows "new_events w (export_run h w) =
           new_events w (handleExportVideo h w) @
           [Download (concat (filter (\<lambda>d. length d > 0) (data_events h)))]
       \<and> recorderState (export_run h w) = Inactive
       \<and> \<not> isExporting (export_run h w)"
proof -
  let ?v = "handleExportVideo h w"
  note hv = handleExportVideo_ok [OF assms]
  let ?f = "foldl (\<lambda>w d. ondataavailable d w) (?v\<lparr>stopQueued := False\<rparr>) (data_events h)"
  from hv(3) have r: "export_run h w = onstop ?f"
    by (simp add: export_run_def deliver_recorder_events_def)
  from foldl_ondataavailable [of "?v\<lparr>stopQueued := False\<rparr>" "data_events h"] hv(2,4)
  have f: "chunks ?f = filter (\<lambda>d. length d > 0) (data_events h)" "trace ?f = trace ?v"
      "recorderState ?f = Inactive"
    by simp_all
  have "length (trace w) \<le> length (trace ?v)"
    using hv(5) by (metis length_take min.cobounded1)
  with f show ?thesis
    by (simp add: r onstop_def on_export_stopped_def new_events_def)
qed

section \<open>Claims about the export pipeline\<close>

text \<open>
  C1. When the run is started on an idle editor, the canvas context and the recorder are
  available and no canvas call raises, a run over a storyboard of \<open>N\<close> shots adds to the
  trace: the recorder start, then for each index \<open>0 .. N - 1\<close> in order the frame of that
  shot followed by its hold, then one \<open>stop()\<close>. So exactly \<open>N\<close> frames are composited, one
  per shot in storyboard order, \<open>N\<close> holds are made, and \<open>stop()\<close> is called exactly once,
  as the last event.
\<close>

theorem export_one_cycle_per_shot:
  assumes "\<not> isExporting w" and "ctx_available h" and "recorder_supported h"
    and "shotsRef w < length (arrays w)"
    and "\<forall>i < length (arrays w ! shotsRef w). \<not> canvas_fault h i"
  shows "let S = arrays w ! shotsRef w;
             evs = new_events w (handleExportVideo h w)
         in evs = RecorderStart #
                  concat (map (\<lambda>i. cycle_events h (fst (canvas_size (aspectRatio h)))
                                      (snd (canvas_size (aspectRatio h))) i (S ! i))
                              [0 ..< length S]) @ [RecorderStop]
            \<and> List.map_filter frame_shot evs = S
            \<and> List.map_filter frame_index evs = [0 ..< length S]
            \<and> length (filter is_hold evs) = length S
            \<and> count_list evs RecorderStop = 1
            \<and> last evs = RecorderStop"
proof -
  note ev = handleExportVideo_ok(1) [OF assms]
  show ?thesis
    unfolding Let_def ev
    by (simp add: cycles_read map_filter_snoc_stop map_nth)
qed

theorem export_one_cycle_per_shot_witness:
  "List.map_filter frame_shot
     (new_events (demo_world [shot_a, shot_b])
        (handleExportVideo demo_host (demo_world [shot_a, shot_b]))) = [shot_a, shot_b]
   \<and> List.map_filter frame_index
     (new_events (demo_world [shot_a, shot_b])
        (handleExportVideo demo_host (demo_world [shot_a, shot_b]))) = [0, 1]
   \<and> length (filter is_hold
     (new_events (demo_world [shot_a, shot_b])
        (handleExportVideo demo_host (demo_world [shot_a, shot_b])))) = 2
   \<and> count_list
     (new_events (demo_world [shot_a, shot_b])
        (handleExportVideo demo_host (demo_world [shot_a, shot_b]))) RecorderStop = 1"
proof -
  let ?w = "demo_world [shot_a, shot_b]"
  have S: "arrays ?w ! shotsRef ?w = [shot_a, shot_b]" by (simp add: demo_world_def)
  have p: "\<not> isExporting ?w" "ctx_available demo_host" "recorder_supported demo_host"
      "shotsRef ?w < length (arrays ?w)"
      "\<forall>i < length (arrays ?w ! shotsRef ?w). \<not> canvas_fault demo_host i"
    by (simp_all add: demo_world_def demo_host_def)
  have u: "[0 ..< length [shot_a, shot_b]] = [0, 1]" by (simp add: upt_rec)
  note th = export_one_cycle_per_shot [OF p, unfolded Let_def S u, THEN conjunct2]
  from th show ?thesis by simp
qed

text \<open>
  C5. The run reads the shot list through the array that the editor was rendered with when
  the run started, and every change of the application's shot list builds a new array.
  So whatever \<open>setShots\<close> calls arrive while the run awaits an image or a hold, the shots
  composited are, in order, the shots of the list as it was at the start, and the events of
  the run are those of the same run with no change arriving at all.
\<close>

theorem export_uses_start_snapshot:
  assumes "\<not> isExporting w" and "ctx_available h" and "recorder_supported h"
    and "shotsRef w < length (arrays w)"
    and "\<forall>i < length (arrays w ! shotsRef w). \<not> canvas_fault h i"
  shows "List.map_filter frame_shot (new_events w (handleExportVideo h w)) = arrays w ! shotsRef w
       \<and> new_events w (handleExportVideo h w) =
           new_events w (handleExportVideo
             (h\<lparr>updates_during_load := (\<lambda>i. []), updates_during_hold := (\<lambda>i. [])\<rparr>) w)"
proof -
  let ?h = "h\<lparr>updates_during_load := (\<lambda>i. []), updates_during_hold := (\<lambda>i. [])\<rparr>"
  from assms(2,3,5) have p: "ctx_available ?h" "recorder_supported ?h"
      "\<forall>i < length (arrays w ! shotsRef w). \<not> canvas_fault ?h i"
    by simp_all
  have same: "cycle_events ?h W H i sh = cycle_events h W H i sh" for W H i sh
    by (simp add: cycle_events_def)
  note ev = handleExportVideo_ok(1) [OF assms]
  note ev' = handleExportVideo_ok(1) [OF assms(1) p(1,2) assms(4) p(3)]
  have "List.map_filter frame_shot (new_events w (handleExportVideo h w)) = arrays w ! shotsRef w"
    unfolding ev by (simp add: cycles_read map_filter_snoc_stop map_nth)
  moreover have "new_events w (handleExportVideo h w) = new_events w (handleExportVideo ?h w)"
    unfolding ev ev' by (simp add: same)
  ultimately show ?thesis by simp
qed

theorem export_uses_start_snapshot_witness:
  "updates_during_load mutating_host 0 = [SetShots []]
   \<and> List.map_filter frame_shot
       (new_events (demo_world [shot_a, shot_b])
          (handleExportVideo mutating_host (demo_world [shot_a, shot_b]))) = [shot_a, shot_b]"
proof -
  let ?w = "demo_world [shot_a, shot_b]"
  have S: "arrays ?w ! shotsRef ?w = [shot_a, shot_b]" by (simp add: demo_world_def)
  have p: "\<not> isExporting ?w" "ctx_available mutating_host" "recorder_supported mutating_host"
      "shotsRef ?w < length (arrays ?w)"
      "\<forall>i < length (arrays ?w ! shotsRef ?w). \<not> canvas_fault mutating_host i"
    by (simp_all add: demo_world_def demo_host_def mutating_host_def)
  have u: "updates_during_load mutating_host 0 = [SetShots []]"
    by (simp add: mutating_host_def)
  note th = export_uses_start_snapshot [OF p, unfolded S, THEN conjunct1]
  from th u show ?thesis by simp
qed

text \<open>
  The handler taken alone: were it to run on an empty storyboard, with the canvas context
  and the recorder available, the body of the \<open>try\<close> block would end without an
  exception, the run would add only the recorder start directly followed by the recorder
  stop, and the recorder's events would then download one file.
\<close>

lemma handleExportVideo_empty:
  assumes "\<not> isExporting w" and "ctx_available h" and "recorder_supported h"
    and "shotsRef w < length (arrays w)" and "arrays w ! shotsRef w = []"
  shows "fst (export_try h (begin_export w)) = None
       \<and> new_events w (handleExportVideo h w) = [RecorderStart, RecorderStop]
       \<and> new_events w (export_run h w) =
           [RecorderStart, RecorderStop,
            Download (concat (filter (\<lambda>d. length d > 0) (data_events h)))]
       \<and> recorderState (export_run h w) = Inactive
       \<and> \<not> isExporting (export_run h w)"
proof -
  from assms(5) have nf: "\<forall>i < length (arrays w ! shotsRef w). \<not> canvas_fault h i" by simp
  let ?b = "begin_export w"
  from assms(4) nf have "shotsRef ?b < length (arrays ?b)"
      "\<forall>i < length (arrays ?b ! shotsRef ?b). \<not> canvas_fault h i"
    by (simp_all add: begin_export_def)
  from export_try_ok [OF assms(2,3) this] have "fst (export_try h ?b) = None" by simp
  moreover from handleExportVideo_ok(1) [OF assms(1-4) nf] assms(5)
  have ev: "new_events w (handleExportVideo h w) = [RecorderStart, RecorderStop]" by simp
  moreover note export_run_ok [OF assms(1-4) nf]
  ultimately show ?thesis by (simp add: ev)
qed



text \<open>
  C4. The run on one shot under a host whose canvas raises while shot 0 is composited: the
  exception is caught (error logged, alert shown) and the editor leaves the exporting state,
  but \<open>stop()\<close> is never called; the recorder started by the run is still recording and
  no \<open>stop\<close> event is pending.
\<close>

theorem export_fault_leaves_recorder_recording:
  "trace (export_run faulty_host (demo_world [shot_a])) =
     [RecorderStart, ConsoleError (CanvasFault 0), Alert]
   \<and> count_list (trace (export_run faulty_host (demo_world [shot_a]))) RecorderStop = 0
   \<and> recorderState (export_run faulty_host (demo_world [shot_a])) = Recording
   \<and> \<not> isExporting (export_run faulty_host (demo_world [shot_a]))"
proof -
  let ?w = "demo_world [shot_a]"
  have p: "\<not> isExporting ?w" "ctx_available faulty_host" "recorder_supported faulty_host"
      "shotsRef ?w < length (arrays ?w)" "0 < length (arrays ?w ! shotsRef ?w)"
      "canvas_fault faulty_host 0" "\<forall>j < (0::nat). \<not> canvas_fault faulty_host j"
    by (simp_all add: demo_world_def demo_host_def faulty_host_def)
  have t: "trace ?w = []" by (simp add: demo_world_def)
  from handleExportVideo_fault [OF p] show ?thesis
    unfolding t by (simp add: export_run_def deliver_recorder_events_def)
qed

end
